theory Spec2Isabelle
  imports Main
begin

unbundle bit_operations_syntax

section \<open>The I2C slave of \<open>cocotbext/i2c/i2c_slave.py\<close>\<close>

text \<open>
  The class \<open>I2cSlave\<close> keeps its protocol state in attributes and reacts to the
  edges of two input wires: \<open>scl_o\<close> (the clock driven by the master) and \<open>sda_o\<close>
  (the data line driven by the master). It answers on a third wire, \<open>sda_i\<close>.
  Four coroutines wait for one edge each and then run a body to completion;
  the bodies are the functions \<open>detect_start\<close>, \<open>detect_stop\<close>, \<open>falling_scl\<close>
  and \<open>rising_scl\<close> below, each a transformer of the record \<open>i2c_slave\<close>.

  Python integers are unbounded, so \<open>bit_pos\<close>, \<open>val\<close>, \<open>recv_byte\<close>,
  \<open>recv_addr\<close> and \<open>addr\<close> are \<open>int\<close>. The attributes \<open>active\<close> and \<open>recv_byte\<close>
  are not assigned by \<open>__init__\<close>, and \<open>access_type\<close> is a local variable of
  \<open>_rising_scl\<close> that is only bound inside a branch: reading them before the first
  assignment raises, so they are options and every read of an unset one is an
  error branch. \<open>recv_addr\<close> is assigned Python's \<open>None\<close> by \<open>__init__\<close>.

  A wire carries a resolved level, \<open>True\<close> for 1 and \<open>False\<close> for 0. The logger,
  \<open>speed\<close> and \<open>bus_active\<close> are never read by the four bodies and are left out; the
  arguments of the two log calls of \<open>_rising_scl\<close> are still evaluated, so the errors
  they can raise are kept. The quarter-bit delay of \<open>_falling_scl\<close> is taken to
  elapse before the next edge of the bus.
\<close>

datatype error =
    ConfigurationError   \<comment> \<open>\<open>raise Exception("I2C can only accept addresses of 7 bits ...")\<close>\<close>
  | AttributeError       \<comment> \<open>an attribute read before it was ever assigned\<close>
  | UnboundLocalError    \<comment> \<open>a local variable read before it was ever bound\<close>

datatype access = Read | Write

record i2c_slave =
  addr :: int
  start :: bool
  stop :: bool
  bit_pos :: int
  address_phase :: bool
  read_phase :: bool
  write_phase :: bool
  recv_addr :: "int option"
  val :: int
  active :: "bool option"
  recv_byte :: "int option"
  access_type :: "access option"
  scl_o :: bool
  sda_o :: bool
  sda_i :: int

subsection \<open>Construction\<close>

text \<open>
  \<open>__init__(sda_i, sda_o, scl_o, addr, speed)\<close>, with the three signal handles
  given; \<open>scl\<close> and \<open>sda\<close> are the levels the two input wires have at that moment.
  The address check comes first and raises before any attribute of the protocol
  state is assigned; \<open>fresh_slave\<close> is the sequence of assignments that follows
  it, ending with \<open>sda_i.setimmediatevalue(1)\<close>.
\<close>

definition fresh_slave :: "int \<Rightarrow> bool \<Rightarrow> bool \<Rightarrow> i2c_slave" where
  "fresh_slave a scl sda =
     \<lparr> addr = a AND 0x7f,
       start = False,
       stop = False,
       bit_pos = 0,
       address_phase = False,
       read_phase = False,
       write_phase = False,
       recv_addr = None,
       val = 0x81,
       active = None,
       recv_byte = None,
       access_type = None,
       scl_o = scl,
       sda_o = sda,
       sda_i = 1 \<rparr>"

definition init :: "int \<Rightarrow> bool \<Rightarrow> bool \<Rightarrow> error + i2c_slave" where
  "init a scl sda =
     (if a > 0x7f then Inl ConfigurationError else Inr (fresh_slave a scl sda))"

subsection \<open>The bodies of the four coroutines\<close>

text \<open>\<open>_detect_start\<close>: the body run after each falling edge of \<open>sda_o\<close>.\<close>

definition detect_start :: "i2c_slave \<Rightarrow> i2c_slave" where
  "detect_start s =
     (if scl_o s
      then s\<lparr> start := True, bit_pos := 0, address_phase := True, active := Some False \<rparr>
      else s)"

text \<open>\<open>_detect_stop\<close>: the body run after each rising edge of \<open>sda_o\<close>.\<close>

definition detect_stop :: "i2c_slave \<Rightarrow> i2c_slave" where
  "detect_stop s = (if scl_o s then s\<lparr> stop := True \<rparr> else s)"

text \<open>
  \<open>_falling_scl\<close>: the body run after each falling edge of \<open>scl_o\<close>.
  \<open>advance\<close> is the counter update, \<open>drive_ack\<close> the first branch of the
  \<open>if\<close>/\<open>elif\<close> and \<open>drive_data\<close> the second.
\<close>

definition advance :: "i2c_slave \<Rightarrow> i2c_slave" where
  "advance s =
     (if start s \<or> \<not> bit_pos s = 0
      then s\<lparr> bit_pos := (if bit_pos s = 9 then 1 else bit_pos s + 1), start := False \<rparr>
      else s)"

definition drive_ack :: "i2c_slave \<Rightarrow> i2c_slave" where
  "drive_ack s = (if bit_pos s = 9 then s\<lparr> sda_i := 0 \<rparr> else s)"

definition drive_data :: "i2c_slave \<Rightarrow> i2c_slave" where
  "drive_data s =
     (if read_phase s
      then (if \<not> 0 = bit_pos s \<and> \<not> bit_pos s \<ge> 9
            then s\<lparr> sda_i := drop_bit (nat (8 - bit_pos s)) (val s) AND 1 \<rparr>
            else s)
      else s)"

definition falling_scl :: "i2c_slave \<Rightarrow> error + i2c_slave" where
  "falling_scl s =
     (let s1 = advance (s\<lparr> sda_i := 1 \<rparr>) in
      if address_phase s1
      then (case active s1 of
              None \<Rightarrow> Inl AttributeError
            | Some a \<Rightarrow> Inr (if a \<or> write_phase s1 then drive_ack s1 else drive_data s1))
      else Inr (if write_phase s1 then drive_ack s1 else drive_data s1))"

text \<open>
  \<open>_rising_scl\<close>: the body run after each rising edge of \<open>scl_o\<close>.
  \<open>shift_in\<close> is the update of \<open>recv_byte\<close> (\<open>|=\<close> reads the attribute, which
  raises when it was never assigned), \<open>decode_address\<close> the branch taken at the
  eighth bit of the address byte, \<open>log_received\<close> the evaluation of the arguments
  of the "Received" log line, and \<open>sample_ack\<close> the two trailing \<open>if\<close>s.
  \<open>and_then\<close> sequences two steps and stops at the first exception.
\<close>

definition shift_in :: "i2c_slave \<Rightarrow> error + i2c_slave" where
  "shift_in s =
     (let s1 = (if 1 = bit_pos s then s\<lparr> recv_byte := Some 0 \<rparr> else s) in
      case recv_byte s1 of
        None \<Rightarrow> Inl AttributeError
      | Some r \<Rightarrow>
          Inr (s1\<lparr> recv_byte :=
                      Some (r OR push_bit (nat (8 - bit_pos s1)) (of_bool (sda_o s1))) \<rparr>))"

definition decode_address :: "i2c_slave \<Rightarrow> error + i2c_slave" where
  "decode_address s =
     (case recv_byte s of
        None \<Rightarrow> Inl AttributeError
      | Some r \<Rightarrow>
          (let s1 = s\<lparr> read_phase := False, write_phase := False,
                       recv_addr := Some (drop_bit 1 r),
                       active := Some (drop_bit 1 r = addr s) \<rparr> in
           Inr (if sda_o s1
                then s1\<lparr> read_phase := True, access_type := Some Read \<rparr>
                else s1\<lparr> write_phase := True, access_type := Some Write \<rparr>)))"

definition log_received :: "i2c_slave \<Rightarrow> error + i2c_slave" where
  "log_received s =
     (if address_phase s \<or> write_phase s
      then (case access_type s of
              None \<Rightarrow> Inl UnboundLocalError
            | Some t \<Rightarrow> (case active s of None \<Rightarrow> Inl AttributeError | Some a \<Rightarrow> Inr s))
      else Inr s)"

definition sample_ack :: "i2c_slave \<Rightarrow> i2c_slave" where
  "sample_ack s =
     (let s1 = (if read_phase s \<and> \<not> address_phase s \<and> bit_pos s = 9
                then s\<lparr> val := val s + 1 \<rparr> else s) in
      if bit_pos s1 = 9 then s1\<lparr> address_phase := False \<rparr> else s1)"

definition and_then :: "error + 'a \<Rightarrow> ('a \<Rightarrow> error + 'b) \<Rightarrow> error + 'b" where
  "and_then r f = (case r of Inl e \<Rightarrow> Inl e | Inr x \<Rightarrow> f x)"

definition rising_scl :: "i2c_slave \<Rightarrow> error + i2c_slave" where
  "rising_scl s =
     and_then
       (if \<not> 0 = bit_pos s \<and> \<not> bit_pos s \<ge> 9
        then and_then (shift_in s) (\<lambda>s1.
               if bit_pos s1 = 8
               then and_then (if address_phase s1 then decode_address s1 else Inr s1)
                      log_received
               else Inr s1)
        else Inr s)
       (\<lambda>s2. Inr (sample_ack s2))"

subsection \<open>The bus: edges wake the coroutines\<close>

text \<open>
  The master moves one wire at a time. \<open>Scl v\<close> sets the clock to level \<open>v\<close> and
  \<open>Sda v\<close> the data line; a wire that already has the level has no edge, and no
  coroutine wakes. \<open>FallingEdge(sda_o)\<close> wakes \<open>_detect_start\<close>,
  \<open>RisingEdge(sda_o)\<close> wakes \<open>_detect_stop\<close>, \<open>FallingEdge(scl_o)\<close> wakes
  \<open>_falling_scl\<close> and \<open>RisingEdge(scl_o)\<close> wakes \<open>_rising_scl\<close>; each body reads the
  wires as they are after the edge. An exception ends the run.
\<close>

datatype event = Scl bool | Sda bool

fun step :: "event \<Rightarrow> i2c_slave \<Rightarrow> error + i2c_slave" where
  "step (Scl v) s =
     (if v = scl_o s then Inr s
      else if v then rising_scl (s\<lparr> scl_o := v \<rparr>) else falling_scl (s\<lparr> scl_o := v \<rparr>))"
| "step (Sda v) s =
     (if v = sda_o s then Inr s
      else if v then Inr (detect_stop (s\<lparr> sda_o := v \<rparr>))
      else Inr (detect_start (s\<lparr> sda_o := v \<rparr>)))"

fun run :: "event list \<Rightarrow> i2c_slave \<Rightarrow> error + i2c_slave" where
  "run [] s = Inr s"
| "run (e # es) s = (case step e s of Inl x \<Rightarrow> Inl x | Inr s' \<Rightarrow> run es s')"

text \<open>
  \<open>driven es s\<close> lists the level of \<open>sda_i\<close> left by \<open>_falling_scl\<close> after each
  falling clock edge of the run \<open>es\<close>.
\<close>

fun driven :: "event list \<Rightarrow> i2c_slave \<Rightarrow> int list" where
  "driven [] s = []"
| "driven (e # es) s =
     (case step e s of
        Inl x \<Rightarrow> []
      | Inr s' \<Rightarrow> (if e = Scl False \<and> scl_o s then [sda_i s'] else []) @ driven es s')"

subsection \<open>What the master puts on the bus\<close>

text \<open>
  A Start is a fall of the data line while the clock is high, followed by the
  clock going low. A bit is put on the data line while the clock is low and
  clocked by one pulse. A byte goes most significant bit first.
\<close>

definition start_cond :: "event list" where
  "start_cond = [Sda False, Scl False]"

definition clock_bit :: "bool \<Rightarrow> event list" where
  "clock_bit b = [Sda b, Scl True, Scl False]"

definition send_bits :: "bool list \<Rightarrow> event list" where
  "send_bits bs = concat (map clock_bit bs)"

definition byte_bits :: "int \<Rightarrow> bool list" where
  "byte_bits x = map (bit x) [7, 6, 5, 4, 3, 2, 1, 0]"

definition send_byte :: "int \<Rightarrow> event list" where
  "send_byte x = send_bits (byte_bits x)"

subsection \<open>Predicates used in the proofs\<close>

text \<open>
  \<open>slave_inv\<close> collects what holds of the slave after construction and after every
  edge: the counter stays in range, the two direction flags exclude each other,
  and every attribute is assigned before a body can read it.
\<close>

definition slave_inv :: "i2c_slave \<Rightarrow> bool" where
  "slave_inv s \<longleftrightarrow>
     0 \<le> bit_pos s \<and> bit_pos s \<le> 9
     \<and> \<not> (read_phase s \<and> write_phase s)
     \<and> (address_phase s \<longrightarrow> active s \<noteq> None)
     \<and> (write_phase s \<longrightarrow> access_type s \<noteq> None \<and> active s \<noteq> None)
     \<and> (recv_byte s = None \<longrightarrow> bit_pos s = 0 \<or> (bit_pos s = 1 \<and> \<not> scl_o s))
     \<and> (address_phase s \<and> active s = Some True \<longrightarrow>
            (bit_pos s = 8 \<and> scl_o s) \<or> (bit_pos s = 9 \<and> \<not> scl_o s))"

text \<open>
  \<open>in_address k r s\<close>: a Start was seen, the clock is low and \<open>k\<close> bits of the
  address byte have been clocked in, which make up \<open>r\<close>; the shift register is
  cleared when the first bit arrives, so before it \<open>r\<close> is 0 whatever the register
  holds.
\<close>

definition in_address :: "nat \<Rightarrow> int \<Rightarrow> i2c_slave \<Rightarrow> bool" where
  "in_address k r s \<longleftrightarrow>
     \<not> scl_o s \<and> \<not> start s \<and> address_phase s \<and> active s = Some False
     \<and> bit_pos s = int k + 1 \<and> (if k = 0 then r = 0 else recv_byte s = Some r)"

text \<open>
  \<open>shift_bits r k bs\<close>: the shift register after the bits \<open>bs\<close> were ORed into
  \<open>r\<close>, the first of them at position \<open>7 - k\<close>.
\<close>

fun shift_bits :: "int \<Rightarrow> nat \<Rightarrow> bool list \<Rightarrow> int" where
  "shift_bits r k [] = r"
| "shift_bits r k (b # bs) = shift_bits (r OR push_bit (7 - k) (of_bool b)) (Suc k) bs"

text \<open>
  \<open>reading k s\<close>: the clock is low, the slave is in its read phase and the
  counter is at \<open>k\<close>; the address phase may still be open in the acknowledge slot
  of the address byte.
\<close>

definition reading :: "nat \<Rightarrow> i2c_slave \<Rightarrow> bool" where
  "reading k s \<longleftrightarrow>
     \<not> scl_o s \<and> \<not> start s \<and> read_phase s \<and> \<not> write_phase s \<and> bit_pos s = int k
     \<and> recv_byte s \<noteq> None \<and> (address_phase s \<longrightarrow> k = 9 \<and> active s \<noteq> None)"

section \<open>Basic facts\<close>

lemma and_then_Inr [simp]: "and_then (Inr x) f = f x"
  by (simp add: and_then_def)

lemma and_then_Inl [simp]: "and_then (Inl e) f = Inl e"
  by (simp add: and_then_def)

lemma run_append: "run (xs @ ys) s = and_then (run xs s) (run ys)"
  by (induction xs arbitrary: s) (auto split: sum.splits)

lemma driven_append:
  "driven (xs @ ys) s =
     driven xs s @ (case run xs s of Inl e \<Rightarrow> [] | Inr s' \<Rightarrow> driven ys s')"
  by (induction xs arbitrary: s) (auto split: sum.splits)

subsection \<open>What one falling clock edge does\<close>

lemma advance_frame:
  "address_phase (advance s) = address_phase s"
  "active (advance s) = active s"
  "read_phase (advance s) = read_phase s"
  "write_phase (advance s) = write_phase s"
  "val (advance s) = val s"
  "advance (s\<lparr>sda_i := x\<rparr>) = (advance s)\<lparr>sda_i := x\<rparr>"
  by (simp_all add: advance_def)

lemma falling_scl_level:
  assumes "address_phase s \<longrightarrow> active s \<noteq> None"
  shows "falling_scl s =
           Inr ((advance s)\<lparr>sda_i :=
                  (if (address_phase s \<and> active s = Some True) \<or> write_phase s
                   then (if bit_pos (advance s) = 9 then 0 else 1)
                   else if read_phase s \<and> bit_pos (advance s) \<noteq> 0 \<and> bit_pos (advance s) < 9
                   then drop_bit (nat (8 - bit_pos (advance s))) (val s) AND 1
                   else 1)\<rparr>)"
proof (cases "address_phase s")
  case True
  with assms obtain a where "active s = Some a" by auto
  with True show ?thesis
    by (simp add: falling_scl_def Let_def advance_frame drive_ack_def drive_data_def)
next
  case False
  then show ?thesis
    by (simp add: falling_scl_def Let_def advance_frame drive_ack_def drive_data_def)
qed

subsection \<open>What one rising clock edge does\<close>

lemma rising_scl_idle: "bit_pos s = 0 \<Longrightarrow> rising_scl s = Inr s"
  by (simp add: rising_scl_def sample_ack_def)

lemma rising_scl_ack:
  "bit_pos s = 9 \<Longrightarrow>
   rising_scl s =
     Inr (s\<lparr>val := (if read_phase s \<and> \<not> address_phase s then val s + 1 else val s),
            address_phase := False\<rparr>)"
  by (simp add: rising_scl_def sample_ack_def)

lemma rising_scl_first:
  "bit_pos s = 1 \<Longrightarrow>
   rising_scl s = Inr (s\<lparr>recv_byte := Some (push_bit 7 (of_bool (sda_o s)))\<rparr>)"
  by (simp add: rising_scl_def shift_in_def sample_ack_def)

lemma rising_scl_bit:
  "1 < bit_pos s \<Longrightarrow> bit_pos s < 8 \<Longrightarrow> recv_byte s = Some r \<Longrightarrow>
   rising_scl s =
     Inr (s\<lparr>recv_byte := Some (r OR push_bit (nat (8 - bit_pos s)) (of_bool (sda_o s)))\<rparr>)"
  by (simp add: rising_scl_def shift_in_def sample_ack_def)

lemma rising_scl_address:
  "bit_pos s = 8 \<Longrightarrow> recv_byte s = Some r \<Longrightarrow> address_phase s \<Longrightarrow>
   rising_scl s =
     Inr (s\<lparr>recv_byte := Some (r OR of_bool (sda_o s)),
            read_phase := sda_o s, write_phase := \<not> sda_o s,
            recv_addr := Some (drop_bit 1 (r OR of_bool (sda_o s))),
            active := Some (drop_bit 1 (r OR of_bool (sda_o s)) = addr s),
            access_type := Some (if sda_o s then Read else Write)\<rparr>)"
  by (simp add: rising_scl_def shift_in_def decode_address_def log_received_def
      sample_ack_def)

lemma rising_scl_data:
  "bit_pos s = 8 \<Longrightarrow> recv_byte s = Some r \<Longrightarrow> \<not> address_phase s \<Longrightarrow>
   write_phase s \<longrightarrow> access_type s \<noteq> None \<and> active s \<noteq> None \<Longrightarrow>
   rising_scl s = Inr (s\<lparr>recv_byte := Some (r OR of_bool (sda_o s))\<rparr>)"
  by (auto simp add: rising_scl_def shift_in_def log_received_def sample_ack_def)

subsection \<open>The invariant\<close>

lemma inv_fresh: "slave_inv (fresh_slave a scl sda)"
  by (simp add: slave_inv_def fresh_slave_def)

lemma inv_detect_start: "slave_inv s \<Longrightarrow> slave_inv (detect_start (s\<lparr>sda_o := v\<rparr>))"
  by (auto simp: slave_inv_def detect_start_def)

lemma inv_detect_stop: "slave_inv s \<Longrightarrow> slave_inv (detect_stop (s\<lparr>sda_o := v\<rparr>))"
  by (auto simp: slave_inv_def detect_stop_def)

lemma inv_falling:
  assumes "slave_inv s" "scl_o s"
  shows "\<exists>s'. falling_scl (s\<lparr>scl_o := False\<rparr>) = Inr s' \<and> slave_inv s'"
proof -
  let ?t = "s\<lparr>scl_o := False\<rparr>"
  from assms have "address_phase ?t \<longrightarrow> active ?t \<noteq> None"
    by (simp add: slave_inv_def)
  from falling_scl_level [OF this] obtain x where
    "falling_scl ?t = Inr ((advance ?t)\<lparr>sda_i := x\<rparr>)" by blast
  moreover have "slave_inv ((advance ?t)\<lparr>sda_i := x\<rparr>)"
    using assms by (auto simp: slave_inv_def advance_def)
  ultimately show ?thesis by simp
qed

lemma inv_rising:
  assumes "slave_inv s" "\<not> scl_o s"
  shows "\<exists>s'. rising_scl (s\<lparr>scl_o := True\<rparr>) = Inr s' \<and> slave_inv s'"
proof -
  let ?t = "s\<lparr>scl_o := True\<rparr>"
  from assms have range: "0 \<le> bit_pos s" "bit_pos s \<le> 9"
    by (simp_all add: slave_inv_def)
  then consider "bit_pos s = 0" | "bit_pos s = 1" | "1 < bit_pos s \<and> bit_pos s < 8"
    | "bit_pos s = 8" | "bit_pos s = 9" by linarith
  then show ?thesis
  proof cases
    case 1
    then show ?thesis
      using assms by (simp add: rising_scl_idle slave_inv_def)
  next
    case 2
    then show ?thesis
      using assms by (simp add: rising_scl_first slave_inv_def)
  next
    case 3
    with assms obtain r where r: "recv_byte s = Some r"
      by (auto simp: slave_inv_def)
    from 3 r have "rising_scl ?t = Inr (?t\<lparr>recv_byte :=
        Some (r OR push_bit (nat (8 - bit_pos ?t)) (of_bool (sda_o ?t)))\<rparr>)"
      by (intro rising_scl_bit) simp_all
    then show ?thesis
      using assms 3 by (simp add: slave_inv_def)
  next
    case 4
    with assms obtain r where r: "recv_byte s = Some r"
      by (auto simp: slave_inv_def)
    show ?thesis
    proof (cases "address_phase s")
      case True
      with 4 r have "rising_scl ?t = Inr (?t\<lparr>recv_byte := Some (r OR of_bool (sda_o ?t)),
            read_phase := sda_o ?t, write_phase := \<not> sda_o ?t,
            recv_addr := Some (drop_bit 1 (r OR of_bool (sda_o ?t))),
            active := Some (drop_bit 1 (r OR of_bool (sda_o ?t)) = addr ?t),
            access_type := Some (if sda_o ?t then Read else Write)\<rparr>)"
        by (intro rising_scl_address) simp_all
      then show ?thesis
        using assms 4 by (simp add: slave_inv_def)
    next
      case False
      with 4 r assms have "rising_scl ?t = Inr (?t\<lparr>recv_byte := Some (r OR of_bool (sda_o ?t))\<rparr>)"
        by (intro rising_scl_data) (simp_all add: slave_inv_def)
      then show ?thesis
        using assms 4 False by (simp add: slave_inv_def)
    qed
  next
    case 5
    then show ?thesis
      using assms by (simp add: rising_scl_ack slave_inv_def)
  qed
qed

lemma inv_step: "slave_inv s \<Longrightarrow> \<exists>s'. step e s = Inr s' \<and> slave_inv s'"
proof (cases e)
  case (Scl v)
  assume "slave_inv s"
  then show ?thesis
    using Scl inv_falling [of s] inv_rising [of s] by (cases v) auto
next
  case (Sda v)
  assume "slave_inv s"
  then show ?thesis
    using Sda inv_detect_start [of s v] inv_detect_stop [of s v] by (cases v) auto
qed

lemma inv_run: "slave_inv s \<Longrightarrow> \<exists>s'. run es s = Inr s' \<and> slave_inv s'"
proof (induction es arbitrary: s)
  case Nil
  then show ?case by simp
next
  case (Cons e es)
  from inv_step [OF Cons.prems] obtain s1 where "step e s = Inr s1" "slave_inv s1"
    by blast
  with Cons.IH [of s1] show ?case by simp
qed

subsection \<open>Edges and clock pulses\<close>

lemma bit_level: "drop_bit n (v::int) AND 1 = of_bool (bit v n)"
  by (simp add: and_one_eq bit_iff_odd_drop_bit mod_2_eq_odd)

lemma step_Sda_low: "\<not> scl_o s \<Longrightarrow> step (Sda v) s = Inr (s\<lparr>sda_o := v\<rparr>)"
  by (simp add: detect_start_def detect_stop_def)

lemma step_Sda_start:
  "scl_o s \<Longrightarrow> sda_o s \<Longrightarrow>
   step (Sda False) s =
     Inr (s\<lparr>sda_o := False, start := True, bit_pos := 0, address_phase := True,
            active := Some False\<rparr>)"
  by (simp add: detect_start_def)

lemma send_bits_Cons: "send_bits (b # bs) = clock_bit b @ send_bits bs"
  by (simp add: send_bits_def)

lemma clock_bit_run:
  assumes "\<not> scl_o s"
    and "rising_scl (s\<lparr>sda_o := b, scl_o := True\<rparr>) = Inr u"
    and "scl_o u"
    and "falling_scl (u\<lparr>scl_o := False\<rparr>) = Inr s'"
  shows "run (clock_bit b) s = Inr s'" and "driven (clock_bit b) s = [sda_i s']"
proof -
  have 1: "step (Sda b) s = Inr (s\<lparr>sda_o := b\<rparr>)"
    using assms(1) by (rule step_Sda_low)
  have 2: "step (Scl True) (s\<lparr>sda_o := b\<rparr>) = Inr u"
    using assms(1,2) by simp
  have 3: "step (Scl False) u = Inr s'"
    using assms(3,4) by simp
  show "run (clock_bit b) s = Inr s'"
    by (simp only: clock_bit_def run.simps 1 2 3 sum.case)
  show "driven (clock_bit b) s = [sda_i s']"
    using assms(3) by (simp only: clock_bit_def driven.simps 1 2 3 sum.case) simp
qed

subsection \<open>The address byte\<close>

lemma start_run:
  assumes "scl_o s" "sda_o s"
  shows "\<exists>s'. run start_cond s = Inr s' \<and> in_address 0 0 s'
           \<and> addr s' = addr s \<and> val s' = val s"
proof -
  let ?t = "s\<lparr>sda_o := False, start := True, bit_pos := 0, address_phase := True,
               active := Some False\<rparr>"
  have 1: "step (Sda False) s = Inr ?t"
    using assms by (rule step_Sda_start)
  have "address_phase (?t\<lparr>scl_o := False\<rparr>) \<longrightarrow> active (?t\<lparr>scl_o := False\<rparr>) \<noteq> None"
    by simp
  from falling_scl_level [OF this] obtain x where
    "falling_scl (?t\<lparr>scl_o := False\<rparr>) = Inr ((advance (?t\<lparr>scl_o := False\<rparr>))\<lparr>sda_i := x\<rparr>)"
    by blast
  then have 2: "step (Scl False) ?t = Inr ((advance (?t\<lparr>scl_o := False\<rparr>))\<lparr>sda_i := x\<rparr>)"
    using assms by simp
  have "run start_cond s = Inr ((advance (?t\<lparr>scl_o := False\<rparr>))\<lparr>sda_i := x\<rparr>)"
    by (simp only: start_cond_def run.simps 1 2 sum.case)
  moreover have "in_address 0 0 ((advance (?t\<lparr>scl_o := False\<rparr>))\<lparr>sda_i := x\<rparr>)"
    by (simp add: in_address_def advance_def)
  moreover have "addr ((advance (?t\<lparr>scl_o := False\<rparr>))\<lparr>sda_i := x\<rparr>) = addr s"
    "val ((advance (?t\<lparr>scl_o := False\<rparr>))\<lparr>sda_i := x\<rparr>) = val s"
    by (simp_all add: advance_def)
  ultimately show ?thesis by blast
qed

lemma address_bit:
  assumes "in_address k r s" "k < 7"
  shows "\<exists>s'. run (clock_bit b) s = Inr s'
           \<and> in_address (Suc k) (r OR push_bit (7 - k) (of_bool b)) s'
           \<and> addr s' = addr s \<and> val s' = val s"
proof -
  let ?r = "r OR push_bit (7 - k) (of_bool b)"
  let ?t = "s\<lparr>sda_o := b, scl_o := True\<rparr>"
  let ?u = "?t\<lparr>recv_byte := Some ?r\<rparr>"
  from assms have low: "\<not> scl_o s" and pos: "bit_pos s = int k + 1"
    by (simp_all add: in_address_def)
  have rise: "rising_scl ?t = Inr ?u"
  proof (cases "k = 0")
    case True
    with assms pos show ?thesis
      by (simp add: rising_scl_first in_address_def)
  next
    case False
    with assms have "recv_byte s = Some r" by (simp add: in_address_def)
    with False assms pos
    have "rising_scl ?t =
            Inr (?t\<lparr>recv_byte :=
                       Some (r OR push_bit (nat (8 - bit_pos ?t)) (of_bool (sda_o ?t)))\<rparr>)"
      by (intro rising_scl_bit) simp_all
    moreover have "nat (8 - (int k + 1)) = 7 - k"
      using assms(2) by simp
    ultimately show ?thesis
      using pos by simp
  qed
  have "address_phase (?u\<lparr>scl_o := False\<rparr>) \<longrightarrow> active (?u\<lparr>scl_o := False\<rparr>) \<noteq> None"
    using assms by (simp add: in_address_def)
  from falling_scl_level [OF this] obtain x where
    fall: "falling_scl (?u\<lparr>scl_o := False\<rparr>) = Inr ((advance (?u\<lparr>scl_o := False\<rparr>))\<lparr>sda_i := x\<rparr>)"
    by blast
  have "scl_o ?u" by simp
  from clock_bit_run(1) [OF low rise this fall]
  have "run (clock_bit b) s = Inr ((advance (?u\<lparr>scl_o := False\<rparr>))\<lparr>sda_i := x\<rparr>)" .
  moreover have "in_address (Suc k) ?r ((advance (?u\<lparr>scl_o := False\<rparr>))\<lparr>sda_i := x\<rparr>)"
    using assms by (simp add: in_address_def advance_def)
  moreover have "addr ((advance (?u\<lparr>scl_o := False\<rparr>))\<lparr>sda_i := x\<rparr>) = addr s"
    "val ((advance (?u\<lparr>scl_o := False\<rparr>))\<lparr>sda_i := x\<rparr>) = val s"
    by (simp_all add: advance_def)
  ultimately show ?thesis by blast
qed

lemma address_bits:
  assumes "in_address k r s" "k + length bs \<le> 7"
  shows "\<exists>s'. run (send_bits bs) s = Inr s'
           \<and> in_address (k + length bs) (shift_bits r k bs) s'
           \<and> addr s' = addr s \<and> val s' = val s"
  using assms
proof (induction bs arbitrary: k r s)
  case Nil
  then show ?case by (simp add: send_bits_def)
next
  case (Cons b bs)
  from Cons.prems have "k < 7" by simp
  from address_bit [OF Cons.prems(1) this, of b] obtain s1 where
    s1: "run (clock_bit b) s = Inr s1"
        "in_address (Suc k) (r OR push_bit (7 - k) (of_bool b)) s1"
        "addr s1 = addr s" "val s1 = val s"
    by blast
  from Cons.prems have "Suc k + length bs \<le> 7" by simp
  from Cons.IH [OF s1(2) this] obtain s2 where
    "run (send_bits bs) s1 = Inr s2"
    "in_address (Suc k + length bs) (shift_bits (r OR push_bit (7 - k) (of_bool b)) (Suc k) bs) s2"
    "addr s2 = addr s1" "val s2 = val s1"
    by blast
  with s1 show ?case
    by (simp add: send_bits_Cons run_append)
qed

subsection \<open>The value of a byte sent most significant bit first\<close>

lemma byte_assemble:
  assumes "0 \<le> x" "x < 256"
  shows "shift_bits 0 0 (map (bit x) [7, 6, 5, 4, 3, 2, 1]) OR of_bool (bit x 0) = (x::int)"
proof (rule bit_eqI)
  fix n
  have high: "\<not> bit x n" if "8 \<le> n"
  proof -
    have "take_bit 8 x = x" using assms by (simp add: take_bit_int_eq_self)
    then have "bit x n = bit (take_bit 8 x) n" by simp
    with that show ?thesis by (simp add: bit_take_bit_iff)
  qed
  consider "n = 0" | "n = 1" | "n = 2" | "n = 3" | "n = 4" | "n = 5" | "n = 6" | "n = 7" | "8 \<le> n"
    by linarith
  then show "bit (shift_bits 0 0 (map (bit x) [7, 6, 5, 4, 3, 2, 1]) OR of_bool (bit x 0)) n = bit x n"
    by cases (simp_all add: bit_simps high)
qed

lemma address_byte_value:
  assumes "0 \<le> a" "a \<le> 0x7f"
  shows "0 \<le> push_bit 1 a OR of_bool d" "push_bit 1 a OR of_bool d < (256::int)"
    "drop_bit 1 (push_bit 1 a OR of_bool d) = a"
    "bit (push_bit 1 a OR of_bool d) 0 = d"
proof -
  have eq: "push_bit 1 a OR of_bool d = 2 * a + of_bool d"
    by (cases d) (simp_all add: push_bit_eq_mult or_one_eq)
  show "0 \<le> push_bit 1 a OR of_bool d"
    using assms by simp
  show "push_bit 1 a OR of_bool d < (256::int)"
    unfolding eq using assms by (cases d) simp_all
  show "drop_bit 1 (push_bit 1 a OR of_bool d) = a"
    unfolding eq by (cases d) (simp_all add: drop_bit_eq_div)
  show "bit (push_bit 1 a OR of_bool d) 0 = d"
    unfolding eq by (cases d) (simp_all add: bit_0)
qed

lemma address_mask: "0 \<le> a \<Longrightarrow> a \<le> 0x7f \<Longrightarrow> a AND 0x7f = (a::int)"
proof -
  assume "0 \<le> a" "a \<le> 0x7f"
  then have "take_bit 7 a = a" by (simp add: take_bit_int_eq_self)
  moreover have "(0x7f::int) = mask 7" by (simp add: mask_eq_exp_minus_1)
  ultimately show ?thesis by (simp only: take_bit_eq_mask [symmetric])
qed

subsection \<open>The eighth bit of the address byte and its acknowledge slot\<close>

lemma address_last:
  assumes "in_address 7 r s"
  shows "\<exists>u s'. run [Sda b, Scl True] s = Inr u \<and> step (Scl False) u = Inr s'
           \<and> run (clock_bit b) s = Inr s'
           \<and> bit_pos u = 8 \<and> scl_o u
           \<and> recv_byte u = Some (r OR of_bool b)
           \<and> recv_addr u = Some (drop_bit 1 (r OR of_bool b))
           \<and> active u = Some (drop_bit 1 (r OR of_bool b) = addr s)
           \<and> read_phase u = b \<and> write_phase u = (\<not> b) \<and> address_phase u
           \<and> bit_pos s' = 9 \<and> \<not> scl_o s' \<and> \<not> start s'
           \<and> recv_byte s' = recv_byte u \<and> recv_addr s' = recv_addr u
           \<and> active s' = active u \<and> read_phase s' = b \<and> write_phase s' = (\<not> b)
           \<and> address_phase s'
           \<and> sda_i s' = (if drop_bit 1 (r OR of_bool b) = addr s \<or> \<not> b then 0 else 1)
           \<and> addr s' = addr s \<and> val s' = val s"
proof -
  let ?r = "r OR of_bool b"
  let ?t = "s\<lparr>sda_o := b, scl_o := True\<rparr>"
  let ?u = "?t\<lparr>recv_byte := Some (r OR of_bool (sda_o ?t)),
            read_phase := sda_o ?t, write_phase := \<not> sda_o ?t,
            recv_addr := Some (drop_bit 1 (r OR of_bool (sda_o ?t))),
            active := Some (drop_bit 1 (r OR of_bool (sda_o ?t)) = addr ?t),
            access_type := Some (if sda_o ?t then Read else Write)\<rparr>"
  let ?v = "?u\<lparr>scl_o := False\<rparr>"
  let ?level = "if (address_phase ?v \<and> active ?v = Some True) \<or> write_phase ?v
                   then (if bit_pos (advance ?v) = 9 then 0 else 1)
                   else if read_phase ?v \<and> bit_pos (advance ?v) \<noteq> 0 \<and> bit_pos (advance ?v) < 9
                   then drop_bit (nat (8 - bit_pos (advance ?v))) (val ?v) AND 1
                   else 1"
  let ?s' = "(advance ?v)\<lparr>sda_i := ?level\<rparr>"
  from assms have low: "\<not> scl_o s" and pos: "bit_pos s = 8" and ap: "address_phase s"
    and rb: "recv_byte s = Some r" and st: "\<not> start s"
    by (simp_all add: in_address_def)
  have rise: "rising_scl ?t = Inr ?u"
    using pos rb ap by (intro rising_scl_address) simp_all
  have "address_phase ?v \<longrightarrow> active ?v \<noteq> None" by simp
  then have fall: "falling_scl ?v = Inr ?s'"
    by (rule falling_scl_level)
  have high: "scl_o ?u" by simp
  have 1: "step (Sda b) s = Inr (s\<lparr>sda_o := b\<rparr>)"
    using low by (rule step_Sda_low)
  have 2: "step (Scl True) (s\<lparr>sda_o := b\<rparr>) = Inr ?u"
    using low rise by simp
  have a: "run [Sda b, Scl True] s = Inr ?u"
    by (simp only: run.simps 1 2 sum.case)
  have b: "step (Scl False) ?u = Inr ?s'"
    using fall by simp
  have c: "run (clock_bit b) s = Inr ?s'"
    using low rise high fall by (rule clock_bit_run(1))
  have adv: "advance ?v = ?v\<lparr>bit_pos := 9, start := False\<rparr>"
    using pos by (simp add: advance_def)
  have d: "bit_pos ?u = 8 \<and> scl_o ?u
           \<and> recv_byte ?u = Some (r OR of_bool b)
           \<and> recv_addr ?u = Some (drop_bit 1 (r OR of_bool b))
           \<and> active ?u = Some (drop_bit 1 (r OR of_bool b) = addr s)
           \<and> read_phase ?u = b \<and> write_phase ?u = (\<not> b) \<and> address_phase ?u"
    using pos ap by simp
  have e: "bit_pos ?s' = 9 \<and> \<not> scl_o ?s' \<and> \<not> start ?s'
           \<and> recv_byte ?s' = recv_byte ?u \<and> recv_addr ?s' = recv_addr ?u
           \<and> active ?s' = active ?u \<and> read_phase ?s' = b \<and> write_phase ?s' = (\<not> b)
           \<and> address_phase ?s'
           \<and> sda_i ?s' = (if drop_bit 1 (r OR of_bool b) = addr s \<or> \<not> b then 0 else 1)
           \<and> addr ?s' = addr s \<and> val ?s' = val s"
    unfolding adv using ap by simp
  from a b c d e show ?thesis by blast
qed

subsection \<open>What the handlers leave alone\<close>

lemma falling_scl_frame:
  assumes "falling_scl s = Inr s'"
  shows "\<exists>x. s' = (advance s)\<lparr>sda_i := x\<rparr>"
proof (cases "address_phase s \<and> active s = None")
  case True
  then have "falling_scl s = Inl AttributeError"
    by (simp add: falling_scl_def Let_def advance_frame)
  with assms show ?thesis by simp
next
  case False
  then have "address_phase s \<longrightarrow> active s \<noteq> None" by simp
  from falling_scl_level [OF this] obtain x where
    "falling_scl s = Inr ((advance s)\<lparr>sda_i := x\<rparr>)" by blast
  with assms have "s' = (advance s)\<lparr>sda_i := x\<rparr>" by simp
  then show ?thesis by (rule exI)
qed

lemma shift_in_frame:
  "shift_in s = Inr t \<Longrightarrow>
   stop t = stop s \<and> bit_pos t = bit_pos s \<and> start t = start s \<and> val t = val s
   \<and> address_phase t = address_phase s"
  by (auto simp: shift_in_def Let_def split: option.splits if_splits)

lemma decode_address_frame:
  "decode_address s = Inr t \<Longrightarrow>
   stop t = stop s \<and> bit_pos t = bit_pos s \<and> start t = start s \<and> val t = val s"
  by (auto simp: decode_address_def Let_def split: option.splits if_splits)

lemma log_received_frame: "log_received s = Inr t \<Longrightarrow> t = s"
  by (auto simp: log_received_def split: option.splits if_splits)

lemma sample_ack_frame:
  "stop (sample_ack s) = stop s \<and> bit_pos (sample_ack s) = bit_pos s
   \<and> start (sample_ack s) = start s \<and> (bit_pos s \<noteq> 9 \<longrightarrow> val (sample_ack s) = val s)"
  by (simp add: sample_ack_def Let_def)

lemma and_then_Inr_iff: "and_then r f = Inr y \<longleftrightarrow> (\<exists>x. r = Inr x \<and> f x = Inr y)"
  by (cases r) simp_all

lemma rising_scl_frame:
  assumes "rising_scl s = Inr s'"
  shows "stop s' = stop s \<and> bit_pos s' = bit_pos s \<and> start s' = start s
         \<and> (bit_pos s \<noteq> 9 \<longrightarrow> val s' = val s)"
proof -
  define body where "body = (\<lambda>s1. if bit_pos s1 = 8
               then and_then (if address_phase s1 then decode_address s1 else Inr s1)
                      log_received
               else Inr s1)"
  have body: "stop t = stop s1 \<and> bit_pos t = bit_pos s1 \<and> start t = start s1 \<and> val t = val s1"
    if "body s1 = Inr t" for s1 t
  proof (cases "bit_pos s1 = 8")
    case False
    with that show ?thesis by (simp add: body_def)
  next
    case True
    with that obtain s2 where s2: "(if address_phase s1 then decode_address s1 else Inr s1) = Inr s2"
      and "log_received s2 = Inr t"
      unfolding body_def and_then_def by (simp split: sum.splits)
    then have "t = s2" by (simp add: log_received_frame)
    show ?thesis
    proof (cases "address_phase s1")
      case True
      with s2 have "decode_address s1 = Inr s2" by simp
      from decode_address_frame [OF this] show ?thesis
        unfolding \<open>t = s2\<close> .
    next
      case False
      with s2 show ?thesis
        unfolding \<open>t = s2\<close> by simp
    qed
  qed
  have "\<exists>t. s' = sample_ack t \<and> stop t = stop s \<and> bit_pos t = bit_pos s
            \<and> start t = start s \<and> val t = val s"
  proof (cases "bit_pos s = 0 \<or> bit_pos s \<ge> 9")
    case True
    then have "rising_scl s = Inr (sample_ack s)"
      by (auto simp: rising_scl_def)
    with assms show ?thesis by auto
  next
    case False
    then have "rising_scl s = and_then (and_then (shift_in s) body) (\<lambda>s2. Inr (sample_ack s2))"
      by (simp add: rising_scl_def body_def)
    with assms obtain s1 t where s1: "shift_in s = Inr s1" and t: "body s1 = Inr t"
      and s': "s' = sample_ack t"
      unfolding and_then_def by (simp split: sum.splits)
    from shift_in_frame [OF s1] body [OF t] s' show ?thesis by auto
  qed
  then obtain t where "s' = sample_ack t" "stop t = stop s" "bit_pos t = bit_pos s"
    "start t = start s" "val t = val s" by blast
  then show ?thesis
    using sample_ack_frame [of t] by simp
qed

subsection \<open>Which edges change the phase flags\<close>






subsection \<open>States reached from construction\<close>

lemma reachable_inv:
  assumes "init a scl sda = Inr s0" and "run es s0 = Inr s"
  shows "slave_inv s"
proof -
  from assms(1) have "s0 = fresh_slave a scl sda"
    by (simp add: init_def split: if_splits)
  then have "slave_inv s0" by (simp add: inv_fresh)
  from inv_run [OF this, of es] assms(2) show ?thesis by auto
qed

lemma step_total:
  assumes "slave_inv s"
  obtains s' where "step e s = Inr s'" "slave_inv s'"
  using inv_step [OF assms, of e] by blast

lemma step_bit_pos:
  assumes "step e s = Inr s'"
  shows "bit_pos s' =
           (if e = Sda False \<and> scl_o s \<and> sda_o s then 0
            else if e = Scl False \<and> scl_o s \<and> (start s \<or> bit_pos s \<noteq> 0)
            then (if bit_pos s = 9 then 1 else bit_pos s + 1)
            else bit_pos s)"
    and "e = Scl False \<and> scl_o s \<and> (start s \<or> bit_pos s \<noteq> 0) \<longrightarrow> \<not> start s'"
proof -
  have "bit_pos s' =
           (if e = Sda False \<and> scl_o s \<and> sda_o s then 0
            else if e = Scl False \<and> scl_o s \<and> (start s \<or> bit_pos s \<noteq> 0)
            then (if bit_pos s = 9 then 1 else bit_pos s + 1)
            else bit_pos s)
     \<and> (e = Scl False \<and> scl_o s \<and> (start s \<or> bit_pos s \<noteq> 0) \<longrightarrow> \<not> start s')"
  proof (cases e)
    case (Sda v)
    with assms show ?thesis
      by (cases v) (auto simp: detect_start_def detect_stop_def split: if_splits)
  next
    case (Scl v)
    show ?thesis
    proof (cases "v = scl_o s")
      case True
      with Scl assms show ?thesis by auto
    next
      case False
      show ?thesis
      proof (cases v)
        case True
        with False Scl assms have "rising_scl (s\<lparr>scl_o := True\<rparr>) = Inr s'" by simp
        from rising_scl_frame [OF this] Scl True show ?thesis by simp
      next
        case low: False
        with False Scl assms have "falling_scl (s\<lparr>scl_o := False\<rparr>) = Inr s'" by simp
        from falling_scl_frame [OF this] obtain x where
          "s' = (advance (s\<lparr>scl_o := False\<rparr>))\<lparr>sda_i := x\<rparr>" ..
        with Scl low False show ?thesis by (simp add: advance_def)
      qed
    qed
  qed
  then show "bit_pos s' =
           (if e = Sda False \<and> scl_o s \<and> sda_o s then 0
            else if e = Scl False \<and> scl_o s \<and> (start s \<or> bit_pos s \<noteq> 0)
            then (if bit_pos s = 9 then 1 else bit_pos s + 1)
            else bit_pos s)"
    and "e = Scl False \<and> scl_o s \<and> (start s \<or> bit_pos s \<noteq> 0) \<longrightarrow> \<not> start s'"
    by blast+
qed

subsection \<open>A byte read by the master\<close>

lemma reading_rise:
  assumes "reading k s" "1 \<le> k" "k \<le> 9"
  shows "\<exists>u. rising_scl (s\<lparr>sda_o := b, scl_o := True\<rparr>) = Inr u
           \<and> scl_o u \<and> \<not> start u \<and> read_phase u \<and> \<not> write_phase u \<and> \<not> address_phase u
           \<and> bit_pos u = int k \<and> recv_byte u \<noteq> None \<and> addr u = addr s
           \<and> val u = (if k = 9 \<and> \<not> address_phase s then val s + 1 else val s)"
proof -
  let ?t = "s\<lparr>sda_o := b, scl_o := True\<rparr>"
  from assms(1) have pos: "bit_pos s = int k" and rd: "read_phase s" "\<not> write_phase s"
    and st: "\<not> start s" and ap: "address_phase s \<longrightarrow> k = 9"
    by (simp_all add: reading_def)
  from assms(1) obtain r where r: "recv_byte s = Some r"
    by (auto simp: reading_def)
  from assms(2,3) consider "k = 1" | "1 < k \<and> k < 8" | "k = 8" | "k = 9" by linarith
  then show ?thesis
  proof cases
    case 1
    with pos have "rising_scl ?t = Inr (?t\<lparr>recv_byte := Some (push_bit 7 (of_bool (sda_o ?t)))\<rparr>)"
      by (intro rising_scl_first) simp
    with 1 pos rd st ap show ?thesis by simp
  next
    case 2
    with pos r have "rising_scl ?t =
       Inr (?t\<lparr>recv_byte := Some (r OR push_bit (nat (8 - bit_pos ?t)) (of_bool (sda_o ?t)))\<rparr>)"
      by (intro rising_scl_bit) simp_all
    with 2 pos rd st ap show ?thesis by simp
  next
    case 3
    with pos r rd ap have "rising_scl ?t = Inr (?t\<lparr>recv_byte := Some (r OR of_bool (sda_o ?t))\<rparr>)"
      by (intro rising_scl_data) simp_all
    with 3 pos rd st ap show ?thesis by simp
  next
    case 4
    with pos have "rising_scl ?t =
       Inr (?t\<lparr>val := (if read_phase ?t \<and> \<not> address_phase ?t then val ?t + 1 else val ?t),
              address_phase := False\<rparr>)"
      by (intro rising_scl_ack) simp
    with 4 pos rd st r show ?thesis by simp
  qed
qed

lemma reading_clock:
  assumes "reading k s" "1 \<le> k" "k \<le> 9"
  shows "\<exists>s'. run (clock_bit b) s = Inr s'
           \<and> reading (if k = 9 then 1 else Suc k) s' \<and> \<not> address_phase s'
           \<and> val s' = (if k = 9 \<and> \<not> address_phase s then val s + 1 else val s)
           \<and> addr s' = addr s
           \<and> driven (clock_bit b) s =
               [if k = 8 then 1 else of_bool (bit (val s') (if k = 9 then 7 else 7 - k))]"
proof -
  from assms(1) have low: "\<not> scl_o s" by (simp add: reading_def)
  from reading_rise [OF assms, of b] obtain u where
    rise: "rising_scl (s\<lparr>sda_o := b, scl_o := True\<rparr>) = Inr u"
    and u: "scl_o u" "\<not> start u" "read_phase u" "\<not> write_phase u" "\<not> address_phase u"
      "bit_pos u = int k" "recv_byte u \<noteq> None" "addr u = addr s"
      "val u = (if k = 9 \<and> \<not> address_phase s then val s + 1 else val s)"
    by blast
  let ?v = "u\<lparr>scl_o := False\<rparr>"
  let ?level = "if (address_phase ?v \<and> active ?v = Some True) \<or> write_phase ?v
                   then (if bit_pos (advance ?v) = 9 then 0 else 1)
                   else if read_phase ?v \<and> bit_pos (advance ?v) \<noteq> 0 \<and> bit_pos (advance ?v) < 9
                   then drop_bit (nat (8 - bit_pos (advance ?v))) (val ?v) AND 1
                   else 1"
  let ?s' = "(advance ?v)\<lparr>sda_i := ?level\<rparr>"
  have "address_phase ?v \<longrightarrow> active ?v \<noteq> None"
    using u by simp
  then have fall: "falling_scl ?v = Inr ?s'"
    by (rule falling_scl_level)
  note run = clock_bit_run [OF low rise u(1) fall]
  have adv: "advance ?v = ?v\<lparr>bit_pos := (if k = 9 then 1 else int k + 1), start := False\<rparr>"
    using u assms(2) by (simp add: advance_def)
  have next_pos: "(if k = 9 then 1 else int k + 1) = int (if k = 9 then 1 else Suc k)"
    by simp
  have a: "reading (if k = 9 then 1 else Suc k) ?s'"
    unfolding adv using u by (simp add: reading_def)
  have b: "\<not> address_phase ?s'" "val ?s' = (if k = 9 \<and> \<not> address_phase s then val s + 1 else val s)"
    "addr ?s' = addr s"
    unfolding adv using u by simp_all
  have c: "sda_i ?s' = (if k = 8 then 1 else of_bool (bit (val ?s') (if k = 9 then 7 else 7 - k)))"
  proof -
    have "nat (8 - (int k + 1)) = 7 - k" using assms(3) by simp
    then show ?thesis
      unfolding adv using u assms(2,3) by (simp add: bit_level)
  qed
  from run a b c show ?thesis by (intro exI [of _ ?s']) simp
qed

lemma reading_bits:
  assumes "reading k s" "1 \<le> k" "k + length bs \<le> 9"
  shows "\<exists>s'. run (send_bits bs) s = Inr s'
           \<and> reading (k + length bs) s' \<and> (address_phase s' \<longrightarrow> address_phase s)
           \<and> val s' = val s \<and> addr s' = addr s
           \<and> driven (send_bits bs) s =
               map (\<lambda>j. if j = 8 then 1 else of_bool (bit (val s) (7 - j))) [k..<k + length bs]"
  using assms
proof (induction bs arbitrary: k s)
  case Nil
  then show ?case by (simp add: send_bits_def)
next
  case (Cons b bs)
  from Cons.prems have k: "1 \<le> k" "k \<le> 9" "k \<noteq> 9" by simp_all
  from reading_clock [OF Cons.prems(1) k(1,2), of b] k(3) obtain s1 where
    s1: "run (clock_bit b) s = Inr s1" "reading (Suc k) s1" "\<not> address_phase s1"
      "val s1 = val s" "addr s1 = addr s"
      "driven (clock_bit b) s = [if k = 8 then 1 else of_bool (bit (val s) (7 - k))]"
    by auto
  from Cons.prems have "1 \<le> Suc k" "Suc k + length bs \<le> 9" by simp_all
  from Cons.IH [OF s1(2) this] obtain s2 where
    s2: "run (send_bits bs) s1 = Inr s2" "reading (Suc k + length bs) s2"
      "address_phase s2 \<longrightarrow> address_phase s1" "val s2 = val s1" "addr s2 = addr s1"
      "driven (send_bits bs) s1 =
         map (\<lambda>j. if j = 8 then 1 else of_bool (bit (val s1) (7 - j))) [Suc k..<Suc k + length bs]"
    by blast
  have "[k..<k + length (b # bs)] = k # [Suc k..<Suc k + length bs]"
    using upt_conv_Cons [of k "k + Suc (length bs)"] by simp
  with s1 s2 show ?case
    by (simp add: send_bits_Cons run_append driven_append)
qed

lemma reading_byte:
  assumes "reading 9 s" "length bs \<le> 8"
  shows "\<exists>s'. run (send_bits (b # bs)) s = Inr s'
           \<and> reading (Suc (length bs)) s' \<and> \<not> address_phase s'
           \<and> val s' = (if address_phase s then val s else val s + 1) \<and> addr s' = addr s
           \<and> driven (send_bits (b # bs)) s =
               map (\<lambda>j. if j = 8 then 1 else of_bool (bit (val s') (7 - j)))
                 [0..<Suc (length bs)]"
proof -
  from reading_clock [OF assms(1), of b] obtain s1 where
    s1: "run (clock_bit b) s = Inr s1" "reading 1 s1" "\<not> address_phase s1"
      "val s1 = (if address_phase s then val s else val s + 1)" "addr s1 = addr s"
      "driven (clock_bit b) s = [of_bool (bit (val s1) 7)]"
    by auto
  from assms(2) have "1 + length bs \<le> 9" by simp
  from reading_bits [OF s1(2) _ this] obtain s2 where
    s2: "run (send_bits bs) s1 = Inr s2" "reading (1 + length bs) s2"
      "address_phase s2 \<longrightarrow> address_phase s1" "val s2 = val s1" "addr s2 = addr s1"
      "driven (send_bits bs) s1 =
         map (\<lambda>j. if j = 8 then 1 else of_bool (bit (val s1) (7 - j))) [1..<1 + length bs]"
    by auto
  have "[0..<Suc (length bs)] = 0 # [1..<1 + length bs]"
    using upt_conv_Cons [of 0 "Suc (length bs)"] by simp
  with s1 s2 show ?thesis
    by (simp add: send_bits_Cons run_append driven_append)
qed

lemmas bus_defs = start_cond_def send_byte_def send_bits_def byte_bits_def clock_bit_def

subsection \<open>The whole address byte\<close>

lemma address_byte:
  assumes "scl_o s" "sda_o s" "0 \<le> x" "x < 256"
  shows "\<exists>u s'. run (start_cond @ butlast (send_byte x)) s = Inr u
           \<and> run (start_cond @ send_byte x) s = Inr s'
           \<and> bit_pos u = 8 \<and> scl_o u
           \<and> recv_byte u = Some x
           \<and> recv_addr u = Some (drop_bit 1 x)
           \<and> active u = Some (drop_bit 1 x = addr s)
           \<and> read_phase u = bit x 0 \<and> write_phase u = (\<not> bit x 0) \<and> address_phase u
           \<and> bit_pos s' = 9 \<and> \<not> scl_o s' \<and> \<not> start s'
           \<and> recv_byte s' = Some x \<and> recv_addr s' = Some (drop_bit 1 x)
           \<and> active s' = Some (drop_bit 1 x = addr s)
           \<and> read_phase s' = bit x 0 \<and> write_phase s' = (\<not> bit x 0)
           \<and> address_phase s'
           \<and> sda_i s' = (if drop_bit 1 x = addr s \<or> \<not> bit x 0 then 0 else 1)
           \<and> addr s' = addr s \<and> val s' = val s"
proof -
  let ?bs = "map (bit x) [7, 6, 5, 4, 3, 2, 1]"
  let ?r = "shift_bits 0 0 ?bs"
  have whole: "send_byte x = send_bits ?bs @ clock_bit (bit x 0)"
    and part: "butlast (send_byte x) = send_bits ?bs @ [Sda (bit x 0), Scl True]"
    by (simp_all add: bus_defs)
  have byte: "?r OR of_bool (bit x 0) = x"
    using assms(3,4) by (rule byte_assemble)
  from start_run [OF assms(1,2)] obtain s1 where
    s1: "run start_cond s = Inr s1" "in_address 0 0 s1" "addr s1 = addr s" "val s1 = val s"
    by blast
  have "0 + length ?bs \<le> 7" by simp
  from address_bits [OF s1(2) this] obtain s2 where
    s2: "run (send_bits ?bs) s1 = Inr s2" "in_address (0 + length ?bs) ?r s2"
      "addr s2 = addr s1" "val s2 = val s1"
    by blast
  have "0 + length ?bs = 7" by simp
  with s2(2) have seven: "in_address 7 ?r s2" by (simp only:)
  from address_last [OF seven, of "bit x 0"] obtain u s' where
    u: "run [Sda (bit x 0), Scl True] s2 = Inr u" "run (clock_bit (bit x 0)) s2 = Inr s'"
      "bit_pos u = 8 \<and> scl_o u
           \<and> recv_byte u = Some (?r OR of_bool (bit x 0))
           \<and> recv_addr u = Some (drop_bit 1 (?r OR of_bool (bit x 0)))
           \<and> active u = Some (drop_bit 1 (?r OR of_bool (bit x 0)) = addr s2)
           \<and> read_phase u = bit x 0 \<and> write_phase u = (\<not> bit x 0) \<and> address_phase u
           \<and> bit_pos s' = 9 \<and> \<not> scl_o s' \<and> \<not> start s'
           \<and> recv_byte s' = recv_byte u \<and> recv_addr s' = recv_addr u
           \<and> active s' = active u \<and> read_phase s' = bit x 0 \<and> write_phase s' = (\<not> bit x 0)
           \<and> address_phase s'
           \<and> sda_i s' = (if drop_bit 1 (?r OR of_bool (bit x 0)) = addr s2 \<or> \<not> bit x 0 then 0 else 1)
           \<and> addr s' = addr s2 \<and> val s' = val s2"
    by blast
  have a: "run (start_cond @ butlast (send_byte x)) s = Inr u"
    unfolding part using s1(1) s2(1) u(1) by (simp add: run_append)
  have b: "run (start_cond @ send_byte x) s = Inr s'"
    unfolding whole using s1(1) s2(1) u(2) by (simp add: run_append)
  from u(3) have c: "bit_pos u = 8 \<and> scl_o u
           \<and> recv_byte u = Some x
           \<and> recv_addr u = Some (drop_bit 1 x)
           \<and> active u = Some (drop_bit 1 x = addr s)
           \<and> read_phase u = bit x 0 \<and> write_phase u = (\<not> bit x 0) \<and> address_phase u
           \<and> bit_pos s' = 9 \<and> \<not> scl_o s' \<and> \<not> start s'
           \<and> recv_byte s' = Some x \<and> recv_addr s' = Some (drop_bit 1 x)
           \<and> active s' = Some (drop_bit 1 x = addr s)
           \<and> read_phase s' = bit x 0 \<and> write_phase s' = (\<not> bit x 0)
           \<and> address_phase s'
           \<and> sda_i s' = (if drop_bit 1 x = addr s \<or> \<not> bit x 0 then 0 else 1)
           \<and> addr s' = addr s \<and> val s' = val s"
    unfolding byte using s1(3,4) s2(3,4) by simp
  from a b c show ?thesis by blast
qed

lemma read_transaction:
  assumes "scl_o s" "sda_o s" "0 \<le> a" "a \<le> 0x7f" "length bs = 8"
  shows "\<exists>s1. run (start_cond @ send_byte (push_bit 1 a OR 1)) s = Inr s1
           \<and> active s1 = Some (a = addr s) \<and> read_phase s1
           \<and> sda_i s1 = (if a = addr s then 0 else 1)
           \<and> driven (send_bits bs) s1 = map (\<lambda>j. of_bool (bit (val s) (7 - j))) [0..<8]"
proof -
  note v = address_byte_value [OF assms(3,4), of True]
  from address_byte [OF assms(1,2) v(1,2)] obtain s1 where
    s1: "run (start_cond @ send_byte (push_bit 1 a OR of_bool True)) s = Inr s1"
      "bit_pos s1 = 9" "\<not> scl_o s1" "\<not> start s1"
      "recv_byte s1 = Some (push_bit 1 a OR of_bool True)"
      "active s1 = Some (a = addr s)" "read_phase s1" "\<not> write_phase s1"
      "sda_i s1 = (if a = addr s then 0 else 1)" "val s1 = val s"
    unfolding v(3,4) by auto
  then have rd: "reading 9 s1"
    by (simp add: reading_def)
  from assms(5) obtain b bs' where bs: "bs = b # bs'" and len: "length bs' = 7"
    by (cases bs) simp_all
  then have "length bs' \<le> 8" by simp
  from reading_byte [OF rd this, of b] obtain s2 where
    "run (send_bits (b # bs')) s1 = Inr s2
           \<and> reading (Suc (length bs')) s2 \<and> \<not> address_phase s2
           \<and> val s2 = (if address_phase s1 then val s1 else val s1 + 1) \<and> addr s2 = addr s1
           \<and> driven (send_bits (b # bs')) s1 =
               map (\<lambda>j. if j = 8 then 1 else of_bool (bit (val s2) (7 - j)))
                 [0..<Suc (length bs')]" ..
  then have s2: "val s2 = (if address_phase s1 then val s1 else val s1 + 1)"
      "driven (send_bits (b # bs')) s1 =
               map (\<lambda>j. if j = 8 then 1 else of_bool (bit (val s2) (7 - j)))
                 [0..<Suc (length bs')]"
    by simp_all
  from address_byte [OF assms(1,2) v(1,2)] s1(1) have "address_phase s1" by auto
  with s2 s1 len have "driven (send_bits bs) s1 = map (\<lambda>j. of_bool (bit (val s) (7 - j))) [0..<8]"
    unfolding bs by simp
  with s1 show ?thesis by auto
qed

subsection \<open>Bytes read one after the other\<close>

lemma reading_group:
  assumes "reading 9 s"
  shows "\<exists>s'. run (send_bits (replicate 9 b)) s = Inr s' \<and> reading 9 s'
           \<and> \<not> address_phase s'
           \<and> val s' = (if address_phase s then val s else val s + 1)"
proof -
  have "length (replicate 8 b) \<le> 8" by simp
  from reading_byte [OF assms this, of b] obtain s' where
    "run (send_bits (b # replicate 8 b)) s = Inr s'
       \<and> reading (Suc (length (replicate 8 b))) s' \<and> \<not> address_phase s'
       \<and> val s' = (if address_phase s then val s else val s + 1) \<and> addr s' = addr s
       \<and> driven (send_bits (b # replicate 8 b)) s =
               map (\<lambda>j. if j = 8 then 1 else of_bool (bit (val s') (7 - j)))
                 [0..<Suc (length (replicate 8 b))]" ..
  moreover have "b # replicate 8 b = replicate 9 b"
    by (simp add: numeral_eq_Suc)
  ultimately show ?thesis
    by (intro exI [of _ s']) simp
qed

lemma reading_groups:
  assumes "reading 9 s" "\<not> address_phase s"
  shows "\<exists>s'. run (concat (replicate n (send_bits (replicate 9 b)))) s = Inr s'
           \<and> reading 9 s' \<and> \<not> address_phase s' \<and> val s' = val s + int n"
  using assms
proof (induction n arbitrary: s)
  case 0
  then show ?case by simp
next
  case (Suc n)
  from reading_group [OF Suc.prems(1), of b] Suc.prems(2) obtain s1 where
    s1: "run (send_bits (replicate 9 b)) s = Inr s1" "reading 9 s1" "\<not> address_phase s1"
      "val s1 = val s + 1"
    by auto
  from Suc.IH [OF s1(2,3)] obtain s2 where
    "run (concat (replicate n (send_bits (replicate 9 b)))) s1 = Inr s2"
    "reading 9 s2" "\<not> address_phase s2" "val s2 = val s1 + int n"
    by blast
  with s1 show ?case
    by (simp add: run_append)
qed

lemma run_append_Inr: "run xs s = Inr s1 \<Longrightarrow> run ys s1 = r \<Longrightarrow> run (xs @ ys) s = r"
  by (simp add: run_append)

section \<open>The claims\<close>

text \<open>
  In the theorems below a reachable state is given by its history: \<open>init\<close>
  returned \<open>s0\<close> and the run \<open>es\<close> of bus edges took \<open>s0\<close> to \<open>s\<close>.
\<close>

text \<open>
  Claim C1. After a Start, when the master clocks in the byte \<open>addr << 1 | dir\<close>
  for a 7-bit \<open>addr\<close>, the rising edge of the eighth bit leaves that byte in
  \<open>recv_byte\<close>, its top seven bits in \<open>recv_addr\<close>, \<open>active\<close> equal to
  \<open>addr = own address\<close>, \<open>read_phase\<close> set exactly when \<open>dir\<close> is 1 and
  \<open>write_phase\<close> exactly when it is 0; all this still holds when the falling
  edge has moved \<open>bit_pos\<close> to 9. The state \<open>s\<close> before the Start is any state
  with both lines high.
\<close>

theorem address_round_trip:
  assumes "scl_o s" and "sda_o s" and "0 \<le> a" and "a \<le> 0x7f"
  shows "\<exists>u s'. run (start_cond @ butlast (send_byte (push_bit 1 a OR of_bool d))) s = Inr u
           \<and> run (start_cond @ send_byte (push_bit 1 a OR of_bool d)) s = Inr s'
           \<and> bit_pos u = 8 \<and> recv_byte u = Some (push_bit 1 a OR of_bool d)
           \<and> recv_addr u = Some a \<and> active u = Some (a = addr s)
           \<and> read_phase u = d \<and> write_phase u = (\<not> d)
           \<and> bit_pos s' = 9 \<and> recv_addr s' = Some a \<and> active s' = Some (a = addr s)
           \<and> read_phase s' = d \<and> write_phase s' = (\<not> d)"
proof -
  note v = address_byte_value [OF assms(3,4), of d]
  from address_byte [OF assms(1,2) v(1,2)] show ?thesis
    unfolding v(3,4) by blast
qed

theorem address_round_trip_witness:
  "\<exists>u s'. run (start_cond @ butlast (send_byte (push_bit 1 0x45 OR of_bool True)))
             (fresh_slave 0x45 True True) = Inr u
         \<and> run (start_cond @ send_byte (push_bit 1 0x45 OR of_bool True))
             (fresh_slave 0x45 True True) = Inr s'
         \<and> bit_pos u = 8 \<and> recv_addr u = Some 0x45 \<and> active u = Some True
         \<and> read_phase u \<and> \<not> write_phase u
         \<and> bit_pos s' = 9 \<and> active s' = Some True \<and> read_phase s' \<and> \<not> write_phase s'"
proof -
  have "scl_o (fresh_slave 0x45 True True)" "sda_o (fresh_slave 0x45 True True)"
    "addr (fresh_slave 0x45 True True) = 0x45"
    by (simp_all add: fresh_slave_def)
  from address_round_trip [OF this(1,2), of "0x45" True] this(3) show ?thesis
    by auto
qed

text \<open>
  Claim C2, evaluated on the code. The slave has address 0x45 and the master
  sends 0x10 after a Start: address 0x08, direction write. At the acknowledge
  slot \<open>active\<close> is false and \<open>write_phase\<close> is set, and \<open>sda_i\<close> is 0: the slave
  pulls the line low.
\<close>

theorem mismatched_write_is_acknowledged:
  "init 0x45 True True = Inr (fresh_slave 0x45 True True)
   \<and> run (start_cond @ send_byte 0x10) (fresh_slave 0x45 True True) =
       Inr \<lparr>addr = 0x45, start = False, stop = False, bit_pos = 9,
          address_phase = True, read_phase = False, write_phase = True,
          recv_addr = Some 0x08, val = 0x81, active = Some False,
          recv_byte = Some 0x10, access_type = Some Write, scl_o = False,
          sda_o = False, sda_i = 0\<rparr>"
  by code_simp

text \<open>
  Claim C3, amended. In a reachable state every edge is handled, and it changes
  \<open>val\<close> only when it is a rising clock edge with \<open>bit_pos\<close> at 9, \<open>read_phase\<close>
  set, \<open>write_phase\<close> and \<open>address_phase\<close> clear; the change is then an increment by
  exactly 1 of an unbounded integer, with no reduction modulo 256, whatever level
  the master puts on the data line in that slot.
\<close>

theorem data_register_increment:
  assumes "init a scl sda = Inr s0" and "run es s0 = Inr s"
  shows "(\<exists>s'. step e s = Inr s'
            \<and> (val s' \<noteq> val s \<longrightarrow>
                 e = Scl True \<and> \<not> scl_o s \<and> bit_pos s = 9 \<and> read_phase s
                 \<and> \<not> write_phase s \<and> \<not> address_phase s)
            \<and> (val s' = val s \<or> val s' = val s + 1))
     \<and> (\<not> scl_o s \<and> bit_pos s = 9 \<and> read_phase s \<and> \<not> address_phase s \<longrightarrow>
          (\<forall>ack. \<exists>t. run [Sda ack, Scl True] s = Inr t \<and> val t = val s + 1))"
proof -
  have inv: "slave_inv s" using assms by (rule reachable_inv)
  then have excl: "read_phase s \<longrightarrow> \<not> write_phase s"
    by (simp add: slave_inv_def)
  from inv obtain s' where s': "step e s = Inr s'" by (rule step_total)
  have change: "val s' = val s \<or>
     (e = Scl True \<and> \<not> scl_o s \<and> bit_pos s = 9 \<and> read_phase s \<and> \<not> address_phase s
      \<and> val s' = val s + 1)"
  proof (cases e)
    case (Sda v)
    with s' show ?thesis
      by (cases v) (auto simp: detect_start_def detect_stop_def split: if_splits)
  next
    case (Scl v)
    show ?thesis
    proof (cases "v = scl_o s")
      case True
      with Scl s' show ?thesis by auto
    next
      case False
      show ?thesis
      proof (cases v)
        case True
        with False Scl s' have r: "rising_scl (s\<lparr>scl_o := True\<rparr>) = Inr s'" by simp
        show ?thesis
        proof (cases "bit_pos s = 9")
          case nine: True
          then have "rising_scl (s\<lparr>scl_o := True\<rparr>) =
             Inr (s\<lparr>scl_o := True,
                   val := (if read_phase (s\<lparr>scl_o := True\<rparr>) \<and> \<not> address_phase (s\<lparr>scl_o := True\<rparr>)
                           then val (s\<lparr>scl_o := True\<rparr>) + 1 else val (s\<lparr>scl_o := True\<rparr>)),
                   address_phase := False\<rparr>)"
            by (intro rising_scl_ack) simp
          with r have "val s' = (if read_phase s \<and> \<not> address_phase s then val s + 1 else val s)"
            by auto
          with nine True False Scl show ?thesis by auto
        next
          case other: False
          with rising_scl_frame [OF r] show ?thesis by simp
        qed
      next
        case low: False
        with False Scl s' have "falling_scl (s\<lparr>scl_o := False\<rparr>) = Inr s'" by simp
        from falling_scl_frame [OF this] obtain x where
          "s' = (advance (s\<lparr>scl_o := False\<rparr>))\<lparr>sda_i := x\<rparr>" ..
        then show ?thesis by (simp add: advance_frame)
      qed
    qed
  qed
  have ack: "\<exists>t. run [Sda ack, Scl True] s = Inr t \<and> val t = val s + 1"
    if "\<not> scl_o s" "bit_pos s = 9" "read_phase s" "\<not> address_phase s" for ack
  proof -
    let ?u = "s\<lparr>sda_o := ack, scl_o := True\<rparr>"
    have 1: "step (Sda ack) s = Inr (s\<lparr>sda_o := ack\<rparr>)"
      using that(1) by (rule step_Sda_low)
    have "rising_scl ?u =
             Inr (?u\<lparr>val := (if read_phase ?u \<and> \<not> address_phase ?u then val ?u + 1 else val ?u),
                   address_phase := False\<rparr>)"
      using that by (intro rising_scl_ack) simp
    then have 2: "step (Scl True) (s\<lparr>sda_o := ack\<rparr>) =
        Inr (?u\<lparr>val := (if read_phase ?u \<and> \<not> address_phase ?u then val ?u + 1 else val ?u),
                   address_phase := False\<rparr>)"
      using that(1) by simp
    have "run [Sda ack, Scl True] s =
        Inr (?u\<lparr>val := (if read_phase ?u \<and> \<not> address_phase ?u then val ?u + 1 else val ?u),
                   address_phase := False\<rparr>)"
      by (simp only: run.simps 1 2 sum.case)
    with that show ?thesis by simp
  qed
  from s' change excl ack show ?thesis by blast
qed

theorem data_register_increment_witness:
  "run (start_cond @ send_byte 0x8B @ send_bits (replicate 9 True))
       (fresh_slave 0x45 True True) = Inr \<lparr>addr = 0x45, start = False, stop = False, bit_pos = 9,
        address_phase = False, read_phase = True, write_phase = False,
        recv_addr = Some 0x45, val = 0x81, active = Some True,
        recv_byte = Some 0xFF, access_type = Some Read, scl_o = False,
        sda_o = True, sda_i = 1\<rparr>
   \<and> (\<forall>ack. \<exists>t. run [Sda ack, Scl True] \<lparr>addr = 0x45, start = False, stop = False, bit_pos = 9,
        address_phase = False, read_phase = True, write_phase = False,
        recv_addr = Some 0x45, val = 0x81, active = Some True,
        recv_byte = Some 0xFF, access_type = Some Read, scl_o = False,
        sda_o = True, sda_i = 1\<rparr> = Inr t \<and> val t = 0x82)"
proof -
  have i: "init 0x45 True True = Inr (fresh_slave 0x45 True True)"
    by (simp add: init_def)
  have r: "run (start_cond @ send_byte 0x8B @ send_bits (replicate 9 True))
       (fresh_slave 0x45 True True) = Inr \<lparr>addr = 0x45, start = False, stop = False, bit_pos = 9,
        address_phase = False, read_phase = True, write_phase = False,
        recv_addr = Some 0x45, val = 0x81, active = Some True,
        recv_byte = Some 0xFF, access_type = Some Read, scl_o = False,
        sda_o = True, sda_i = 1\<rparr>"
    by code_simp
  from data_register_increment [OF i r] r show ?thesis
    by simp
qed

text \<open>
  The claim as written fails: the master reads 127 bytes from the slave at
  address 0x45. The last of them is 0xFF; the rising edge of its acknowledge
  slot leaves 0x100 in \<open>val\<close>, not 0.
\<close>

theorem data_register_counterexample:
  "map_sum id val (run (start_cond @ send_byte 0x8B
                @ concat (replicate 127 (send_bits (replicate 9 True))))
              (fresh_slave 0x45 True True)) = Inr 0xFF
   \<and> map_sum id val (run ((start_cond @ send_byte 0x8B
                @ concat (replicate 127 (send_bits (replicate 9 True)))) @ [Scl True])
              (fresh_slave 0x45 True True)) = Inr 0x100"
proof -
  let ?s0 = "fresh_slave 0x45 True True"
  let ?G = "send_bits (replicate 9 True)"
  have hi: "scl_o ?s0" "sda_o ?s0" and seed: "val ?s0 = 0x81"
    by (simp_all add: fresh_slave_def)
  have "(0::int) \<le> 0x8B" "(0x8B::int) < 256" by simp_all
  from address_byte [OF hi this] obtain s1 where
    s1: "run (start_cond @ send_byte 0x8B) ?s0 = Inr s1" "bit_pos s1 = 9" "\<not> scl_o s1"
      "\<not> start s1" "recv_byte s1 = Some 0x8B" "active s1 = Some (drop_bit 1 0x8B = addr ?s0)"
      "read_phase s1 = bit (0x8B::int) 0" "write_phase s1 = (\<not> bit (0x8B::int) 0)"
      "val s1 = val ?s0"
    by blast
  then have "reading 9 s1"
    by (simp add: reading_def)
  from reading_group [OF this, of True] obtain s2 where
    s2: "run ?G s1 = Inr s2" "reading 9 s2" "\<not> address_phase s2"
      "val s2 = (if address_phase s1 then val s1 else val s1 + 1)"
    by blast
  from address_byte [OF hi \<open>(0::int) \<le> 0x8B\<close> \<open>(0x8B::int) < 256\<close>] s1(1)
  have "address_phase s1" by auto
  with s2(4) s1(9) seed have v2: "val s2 = 0x81" by simp
  from reading_groups [OF s2(2,3), of 126 True] obtain s3 where
    s3: "run (concat (replicate 126 ?G)) s2 = Inr s3" "reading 9 s3" "\<not> address_phase s3"
      "val s3 = val s2 + int 126"
    by blast
  have split: "concat (replicate 127 ?G) = ?G @ concat (replicate 126 ?G)"
    by (simp add: numeral_eq_Suc)
  have "run ((start_cond @ send_byte 0x8B) @ ?G @ concat (replicate 126 ?G)) ?s0 = Inr s3"
    using s1(1) run_append_Inr [OF s2(1) s3(1)] by (rule run_append_Inr)
  then have run: "run (start_cond @ send_byte 0x8B @ concat (replicate 127 ?G)) ?s0 = Inr s3"
    unfolding split by (simp only: append_assoc)
  from s3(2) have low: "\<not> scl_o s3" and nine: "bit_pos s3 = 9" and rd: "read_phase s3"
    by (simp_all add: reading_def)
  have "rising_scl (s3\<lparr>scl_o := True\<rparr>) =
     Inr (s3\<lparr>scl_o := True,
           val := (if read_phase (s3\<lparr>scl_o := True\<rparr>) \<and> \<not> address_phase (s3\<lparr>scl_o := True\<rparr>)
                   then val (s3\<lparr>scl_o := True\<rparr>) + 1 else val (s3\<lparr>scl_o := True\<rparr>)),
           address_phase := False\<rparr>)"
    using nine by (intro rising_scl_ack) simp
  with low have "step (Scl True) s3 =
     Inr (s3\<lparr>scl_o := True,
           val := (if read_phase (s3\<lparr>scl_o := True\<rparr>) \<and> \<not> address_phase (s3\<lparr>scl_o := True\<rparr>)
                   then val (s3\<lparr>scl_o := True\<rparr>) + 1 else val (s3\<lparr>scl_o := True\<rparr>)),
           address_phase := False\<rparr>)"
    by simp
  then have "run [Scl True] s3 =
     Inr (s3\<lparr>scl_o := True,
           val := (if read_phase (s3\<lparr>scl_o := True\<rparr>) \<and> \<not> address_phase (s3\<lparr>scl_o := True\<rparr>)
                   then val (s3\<lparr>scl_o := True\<rparr>) + 1 else val (s3\<lparr>scl_o := True\<rparr>)),
           address_phase := False\<rparr>)"
    by (simp only: run.simps sum.case)
  with run have "run ((start_cond @ send_byte 0x8B @ concat (replicate 127 ?G)) @ [Scl True]) ?s0 =
     Inr (s3\<lparr>scl_o := True,
           val := (if read_phase (s3\<lparr>scl_o := True\<rparr>) \<and> \<not> address_phase (s3\<lparr>scl_o := True\<rparr>)
                   then val (s3\<lparr>scl_o := True\<rparr>) + 1 else val (s3\<lparr>scl_o := True\<rparr>)),
           address_phase := False\<rparr>)"
    by (rule run_append_Inr)
  then have after: "map_sum id val
      (run ((start_cond @ send_byte 0x8B @ concat (replicate 127 ?G)) @ [Scl True]) ?s0) =
        Inr (val s3 + 1)"
    using rd s3(3) by simp
  have "val s3 = 0xFF"
    using s3(4) v2 by simp
  with run after show ?thesis
    by simp
qed




text \<open>
  Claim C5. In every reachable state \<open>bit_pos\<close> lies between 0 and 9. Every edge
  is handled without an exception; the counter goes from a nonzero value to 0
  only when the edge is a Start (the data line falls while the clock is high);
  and on a falling clock edge with \<open>start\<close> set or \<open>bit_pos\<close> nonzero the
  counter wraps from 9 to 1, otherwise goes up by one, and \<open>start\<close> is cleared.
\<close>

theorem bit_pos_counter:
  assumes "init a scl sda = Inr s0" and "run es s0 = Inr s"
  shows "0 \<le> bit_pos s \<and> bit_pos s \<le> 9 \<and>
         (\<exists>s'. step e s = Inr s' \<and>
            (bit_pos s' = 0 \<and> bit_pos s \<noteq> 0 \<longrightarrow> e = Sda False \<and> scl_o s \<and> sda_o s) \<and>
            (e = Scl False \<and> scl_o s \<and> (start s \<or> bit_pos s \<noteq> 0) \<longrightarrow>
               bit_pos s' = (if bit_pos s = 9 then 1 else bit_pos s + 1) \<and> \<not> start s'))"
proof -
  have inv: "slave_inv s" using assms by (rule reachable_inv)
  then have range: "0 \<le> bit_pos s" "bit_pos s \<le> 9"
    by (simp_all add: slave_inv_def)
  from inv obtain s' where s': "step e s = Inr s'" by (rule step_total)
  note pos = step_bit_pos [OF s']
  have "bit_pos s' = 0 \<and> bit_pos s \<noteq> 0 \<longrightarrow> e = Sda False \<and> scl_o s \<and> sda_o s"
    using pos(1) range by (auto split: if_splits)
  moreover have "e = Scl False \<and> scl_o s \<and> (start s \<or> bit_pos s \<noteq> 0) \<longrightarrow>
               bit_pos s' = (if bit_pos s = 9 then 1 else bit_pos s + 1) \<and> \<not> start s'"
    using pos by simp
  ultimately show ?thesis using range s' by blast
qed

theorem bit_pos_counter_witness:
  "run [Sda False] (fresh_slave 0x45 True True) =
     Inr \<lparr>addr = 69, start = True, stop = False, bit_pos = 0,
        address_phase = True, read_phase = False, write_phase = False,
        recv_addr = None, val = 129, active = Some False, recv_byte = None,
        access_type = None, scl_o = True, sda_o = False, sda_i = 1\<rparr>
   \<and> (\<exists>s'. step (Scl False) \<lparr>addr = 69, start = True, stop = False, bit_pos = 0,
        address_phase = True, read_phase = False, write_phase = False,
        recv_addr = None, val = 129, active = Some False, recv_byte = None,
        access_type = None, scl_o = True, sda_o = False, sda_i = 1\<rparr> = Inr s'
        \<and> bit_pos s' = 1 \<and> \<not> start s')"
proof -
  let ?s = "\<lparr>addr = 69, start = True, stop = False, bit_pos = 0,
        address_phase = True, read_phase = False, write_phase = False,
        recv_addr = None, val = 129, active = Some False, recv_byte = None,
        access_type = None, scl_o = True, sda_o = False, sda_i = 1\<rparr>"
  have i: "init 0x45 True True = Inr (fresh_slave 0x45 True True)"
    by (simp add: init_def)
  have r: "run [Sda False] (fresh_slave 0x45 True True) = Inr ?s"
    by (simp add: fresh_slave_def detect_start_def)
  from bit_pos_counter [OF i r, of "Scl False"] r show ?thesis
    by simp
qed

text \<open>
  Claim C6. In a reachable state with \<open>read_phase\<close> set, a falling clock edge
  is handled and leaves \<open>val\<close> as it is; when it moves \<open>bit_pos\<close> to a value from 1
  to 8 it puts bit \<open>8 - bit_pos\<close> of \<open>val\<close> on \<open>sda_i\<close>, most significant bit
  first; when it moves \<open>bit_pos\<close> to 9 outside the address phase it leaves
  \<open>sda_i\<close> at 1.
\<close>

theorem read_phase_drive:
  assumes "init a scl sda = Inr s0" and "run es s0 = Inr s"
    and "scl_o s" and "read_phase s"
  shows "\<exists>s'. step (Scl False) s = Inr s' \<and> bit_pos s' = bit_pos (advance s)
           \<and> val s' = val s
           \<and> (1 \<le> bit_pos s' \<and> bit_pos s' \<le> 8 \<longrightarrow>
                sda_i s' = of_bool (bit (val s) (nat (8 - bit_pos s'))))
           \<and> (bit_pos s' = 9 \<and> \<not> address_phase s \<longrightarrow> sda_i s' = 1)"
proof -
  let ?t = "s\<lparr>scl_o := False\<rparr>"
  have inv: "slave_inv s" using assms(1,2) by (rule reachable_inv)
  with assms(4) have nw: "\<not> write_phase s"
    by (auto simp: slave_inv_def)
  have adv: "bit_pos (advance ?t) = bit_pos (advance s)"
    by (simp add: advance_def)
  from inv have "address_phase ?t \<longrightarrow> active ?t \<noteq> None"
    by (simp add: slave_inv_def)
  note fall = falling_scl_level [OF this]
  have step: "step (Scl False) s = falling_scl ?t"
    using assms(3) by simp
  show ?thesis
  proof (cases "address_phase s \<and> active s = Some True")
    case True
    with inv assms(3) have "bit_pos s = 8"
      by (auto simp: slave_inv_def)
    then have "bit_pos (advance s) = 9"
      by (simp add: advance_def)
    with True show ?thesis
      unfolding step fall by (simp add: adv advance_frame)
  next
    case False
    with nw assms(4) show ?thesis
      unfolding step fall by (auto simp add: adv advance_frame bit_level)
  qed
qed

theorem read_phase_drive_witness:
  "run (start_cond @ send_byte 0x8B @ send_bits (replicate 9 True) @ [Sda False, Scl True])
       (fresh_slave 0x45 True True) = Inr \<lparr>addr = 0x45, start = False, stop = False, bit_pos = 9,
        address_phase = False, read_phase = True, write_phase = False,
        recv_addr = Some 0x45, val = 0x82, active = Some True,
        recv_byte = Some 0xFF, access_type = Some Read, scl_o = True,
        sda_o = False, sda_i = 1\<rparr>
   \<and> (\<exists>s'. step (Scl False) \<lparr>addr = 0x45, start = False, stop = False, bit_pos = 9,
        address_phase = False, read_phase = True, write_phase = False,
        recv_addr = Some 0x45, val = 0x82, active = Some True,
        recv_byte = Some 0xFF, access_type = Some Read, scl_o = True,
        sda_o = False, sda_i = 1\<rparr> = Inr s'
          \<and> bit_pos s' = 1 \<and> val s' = 0x82 \<and> sda_i s' = of_bool (bit (0x82::int) 7))"
proof -
  let ?S = "\<lparr>addr = 0x45, start = False, stop = False, bit_pos = 9,
        address_phase = False, read_phase = True, write_phase = False,
        recv_addr = Some 0x45, val = 0x82, active = Some True,
        recv_byte = Some 0xFF, access_type = Some Read, scl_o = True,
        sda_o = False, sda_i = 1\<rparr>"
  have i: "init 0x45 True True = Inr (fresh_slave 0x45 True True)"
    by (simp add: init_def)
  have r: "run (start_cond @ send_byte 0x8B @ send_bits (replicate 9 True) @ [Sda False, Scl True])
       (fresh_slave 0x45 True True) = Inr \<lparr>addr = 0x45, start = False, stop = False, bit_pos = 9,
        address_phase = False, read_phase = True, write_phase = False,
        recv_addr = Some 0x45, val = 0x82, active = Some True,
        recv_byte = Some 0xFF, access_type = Some Read, scl_o = True,
        sda_o = False, sda_i = 1\<rparr>"
    by code_simp
  have "scl_o ?S" "read_phase ?S" by simp_all
  from read_phase_drive [OF i r this] obtain s' where
    s': "step (Scl False) ?S = Inr s' \<and> bit_pos s' = bit_pos (advance ?S)
           \<and> val s' = val ?S
           \<and> (1 \<le> bit_pos s' \<and> bit_pos s' \<le> 8 \<longrightarrow>
                sda_i s' = of_bool (bit (val ?S) (nat (8 - bit_pos s'))))
           \<and> (bit_pos s' = 9 \<and> \<not> address_phase ?S \<longrightarrow> sda_i s' = 1)" ..
  have "bit_pos (advance ?S) = 1"
    by (simp add: advance_def)
  with s' have "step (Scl False) ?S = Inr s' \<and> bit_pos s' = 1 \<and> val s' = 0x82
      \<and> sda_i s' = of_bool (bit (0x82::int) 7)"
    by simp
  with r show ?thesis by blast
qed

text \<open>
  Claim C7. Construction succeeds for every address from 0 to 0x7F and keeps the
  address as it is; for every address above 0x7F it raises, and the result is
  the exception alone, with no slave state.
\<close>

theorem construction_address_range:
  "(0 \<le> a \<and> a \<le> 0x7f \<longrightarrow>
      init a scl sda = Inr (fresh_slave a scl sda) \<and> addr (fresh_slave a scl sda) = a)
   \<and> (0x7f < a \<longrightarrow> init a scl sda = Inl ConfigurationError)"
  by (simp add: init_def fresh_slave_def address_mask)

theorem construction_address_range_witness:
  "init 0x45 True True = Inr (fresh_slave 0x45 True True)
   \<and> addr (fresh_slave 0x45 True True) = 0x45
   \<and> init 0x80 True True = Inl ConfigurationError"
  using construction_address_range [of "0x45" True True]
    construction_address_range [of "0x80" True True]
  by simp

text \<open>
  Claim C8. A Stop condition (the data line rises while the clock is high) sets
  \<open>stop\<close> and, besides the level of the data line, changes nothing else; and no
  edge, whatever the state, takes \<open>stop\<close> from set to clear.
\<close>

theorem stop_condition:
  "(scl_o s \<and> \<not> sda_o s \<longrightarrow> step (Sda True) s = Inr (s\<lparr>sda_o := True, stop := True\<rparr>))
   \<and> (stop s \<and> step e s = Inr s' \<longrightarrow> stop s')"
proof -
  have "stop s'" if "stop s" "step e s = Inr s'"
  proof (cases e)
    case (Sda v)
    with that show ?thesis
      by (cases v) (auto simp: detect_start_def detect_stop_def split: if_splits)
  next
    case (Scl v)
    show ?thesis
    proof (cases "v = scl_o s")
      case True
      with Scl that show ?thesis by auto
    next
      case False
      show ?thesis
      proof (cases v)
        case True
        with False Scl that have "rising_scl (s\<lparr>scl_o := True\<rparr>) = Inr s'" by simp
        from rising_scl_frame [OF this] that show ?thesis by simp
      next
        case low: False
        with False Scl that have "falling_scl (s\<lparr>scl_o := False\<rparr>) = Inr s'" by simp
        from falling_scl_frame [OF this] obtain x where
          "s' = (advance (s\<lparr>scl_o := False\<rparr>))\<lparr>sda_i := x\<rparr>" ..
        with that show ?thesis by (simp add: advance_def)
      qed
    qed
  qed
  then show ?thesis
    by (simp add: detect_stop_def)
qed

theorem stop_condition_witness:
  "step (Sda True) (fresh_slave 0x45 True False) =
     Inr ((fresh_slave 0x45 True False)\<lparr>sda_o := True, stop := True\<rparr>)
   \<and> step (Sda False) ((fresh_slave 0x45 True False)\<lparr>sda_o := True, stop := True\<rparr>) =
     Inr ((fresh_slave 0x45 True False)\<lparr>sda_o := False, stop := True, start := True,
            bit_pos := 0, address_phase := True, active := Some False\<rparr>)
   \<and> stop ((fresh_slave 0x45 True False)\<lparr>sda_o := False, stop := True, start := True,
            bit_pos := 0, address_phase := True, active := Some False\<rparr>)"
proof -
  let ?s = "fresh_slave 0x45 True False"
  let ?t = "?s\<lparr>sda_o := True, stop := True\<rparr>"
  let ?u = "?s\<lparr>sda_o := False, stop := True, start := True,
            bit_pos := 0, address_phase := True, active := Some False\<rparr>"
  have a: "step (Sda True) ?s = Inr ?t"
    using stop_condition [of ?s] by (simp add: fresh_slave_def)
  have b: "step (Sda False) ?t = Inr ?u"
    by (simp add: fresh_slave_def detect_start_def)
  have c: "stop ?u"
    using stop_condition [of ?t "Sda False" ?u] b by simp
  from a b c show ?thesis by blast
qed

text \<open>
  Claim C9. After a Start, when the address byte has direction bit 1 and a 7-bit
  address other than the slave's own, the slave is in \<open>read_phase\<close> with
  \<open>active\<close> false, leaves \<open>sda_i\<close> at 1 in the acknowledge slot, and on the next
  eight falling clock edges puts the bits of \<open>val\<close> on \<open>sda_i\<close>, most significant
  bit first, whatever the master puts on the data line.
\<close>

theorem mismatched_read_drives_data:
  assumes "scl_o s" and "sda_o s" and "0 \<le> a" and "a \<le> 0x7f" and "a \<noteq> addr s"
    and "length bs = 8"
  shows "\<exists>s1. run (start_cond @ send_byte (push_bit 1 a OR 1)) s = Inr s1
           \<and> active s1 = Some False \<and> read_phase s1 \<and> sda_i s1 = 1
           \<and> driven (send_bits bs) s1 = map (\<lambda>j. of_bool (bit (val s) (7 - j))) [0..<8]"
  using read_transaction [OF assms(1-4,6)] assms(5) by simp


theorem mismatched_read_drives_data_witness:
  "\<exists>s1. run (start_cond @ send_byte (push_bit 1 0x08 OR 1)) (fresh_slave 0x45 True True) = Inr s1
         \<and> active s1 = Some False \<and> read_phase s1 \<and> sda_i s1 = 1
         \<and> driven (send_bits (replicate 8 True)) s1 =
             map (\<lambda>j. of_bool (bit (0x81::int) (7 - j))) [0..<8]"
proof -
  have "scl_o (fresh_slave 0x45 True True)" "sda_o (fresh_slave 0x45 True True)"
    "(0x08::int) \<noteq> addr (fresh_slave 0x45 True True)" "val (fresh_slave 0x45 True True) = 0x81"
    by (simp_all add: fresh_slave_def)
  from mismatched_read_drives_data [OF this(1,2) _ _ this(3), of "replicate 8 True"] this(4)
  show ?thesis by simp
qed

text \<open>
  Claim C10. Construction leaves 0x81 in \<open>val\<close>, and in a read transaction begun
  while \<open>val\<close> still has that value the eight bits the slave puts on \<open>sda_i\<close> are
  those of 0x81.
\<close>

theorem seed_value:
  assumes "init a scl sda = Inr s0"
  shows "val s0 = 0x81
     \<and> (\<forall>s x bs. val s = val s0 \<and> scl_o s \<and> sda_o s \<and> 0 \<le> x \<and> x \<le> 0x7f \<and> length bs = 8 \<longrightarrow>
          (\<exists>s1. run (start_cond @ send_byte (push_bit 1 x OR 1)) s = Inr s1
                \<and> driven (send_bits bs) s1 = [1, 0, 0, 0, 0, 0, 0, 1]))"
proof -
  from assms have seed: "val s0 = 0x81"
    by (auto simp: init_def fresh_slave_def split: if_splits)
  have bits: "map (\<lambda>j. of_bool (bit (0x81::int) (7 - j))) [0..<8] = [1, 0, 0, 0, 0, 0, 0, 1::int]"
    by code_simp
  have "\<exists>s1. run (start_cond @ send_byte (push_bit 1 x OR 1)) s = Inr s1
                \<and> driven (send_bits bs) s1 = [1, 0, 0, 0, 0, 0, 0, 1]"
    if "val s = val s0" "scl_o s" "sda_o s" "0 \<le> x" "x \<le> 0x7f" "length bs = 8" for s x bs
    using read_transaction [OF that(2-6)] that(1) seed bits by auto
  with seed show ?thesis by blast
qed

theorem seed_value_witness:
  "val (fresh_slave 0x45 True True) = 0x81
   \<and> (\<exists>s1. run (start_cond @ send_byte (push_bit 1 0x45 OR 1)) (fresh_slave 0x45 True True) = Inr s1
          \<and> driven (send_bits (replicate 8 True)) s1 = [1, 0, 0, 0, 0, 0, 0, 1])"
proof -
  have i: "init 0x45 True True = Inr (fresh_slave 0x45 True True)"
    by (simp add: init_def)
  note sv = seed_value [OF i]
  have "val (fresh_slave 0x45 True True) = val (fresh_slave 0x45 True True)
      \<and> scl_o (fresh_slave 0x45 True True) \<and> sda_o (fresh_slave 0x45 True True)
      \<and> (0::int) \<le> 0x45 \<and> (0x45::int) \<le> 0x7f \<and> length (replicate 8 True) = 8"
    by (simp add: fresh_slave_def)
  from sv [THEN conjunct2, rule_format, OF this] sv [THEN conjunct1]
  show ?thesis by blast
qed

end
